theory Spec2Isabelle
  imports Complex_Main "HOL-Library.AList"
begin

section \<open>The junction controller of smart-traffic-ai\<close>

text \<open>
  A shallow embedding of \<^verbatim>\<open>src/junction/junction_controller.py\<close>.

  Modelling decisions:
  \<^item> A Python \<^verbatim>\<open>str\<close> is a \<open>string\<close>, a Python \<^verbatim>\<open>int\<close> is an \<open>int\<close>.
  \<^item> A Python \<^verbatim>\<open>float\<close> is a \<open>rat\<close>: arithmetic is exact, the rounding of IEEE
    doubles is not modelled. The constant \<^verbatim>\<open>0.7\<close> is the rational \<open>7/10\<close>.
  \<^item> A Python \<^verbatim>\<open>dict\<close> is the list of its items in iteration (insertion) order.
    Assigning to a key that is present keeps its position, which is what
    \<open>AList.update\<close> does.
  \<^item> \<^verbatim>\<open>time.time()\<close> is read twice by \<^verbatim>\<open>decide_signal\<close>; both readings are
    parameters of the model.
  \<^item> The object is mutated in place, so an exception leaves the fields written so
    far; \<open>update_counts\<close> therefore returns the state together with the exception,
    if any.
\<close>

subsection \<open>State\<close>

datatype error = KeyError string | ValueError

record controller =
  MIN_GREEN :: int
  MAX_GREEN :: int
  ALPHA :: rat
  MAX_CONSECUTIVE :: int
  current_green :: "string option"
  green_end_time :: rat
  last_green :: "string option"
  consecutive_count :: int
  current_duration :: int
  smooth_counts :: "(string \<times> rat) list"

definition known_directions :: "string list" where
  "known_directions = [''NORTH'', ''EAST'', ''SOUTH'', ''WEST'']"

text \<open>The field assignments of \<^verbatim>\<open>__init__\<close> (lines 36 to 53).\<close>

definition init_state :: "int \<Rightarrow> int \<Rightarrow> rat \<Rightarrow> int \<Rightarrow> controller" where
  "init_state min_green max_green smoothing_alpha max_consecutive =
     \<lparr> MIN_GREEN = min_green,
       MAX_GREEN = max_green,
       ALPHA = smoothing_alpha,
       MAX_CONSECUTIVE = max_consecutive,
       current_green = None,
       green_end_time = 0,
       last_green = None,
       consecutive_count = 0,
       current_duration = 0,
       smooth_counts = [(''NORTH'', 0), (''EAST'', 0), (''SOUTH'', 0), (''WEST'', 0)] \<rparr>"

text \<open>
  The constructor call. \<^verbatim>\<open>__init__\<close> has no \<^verbatim>\<open>raise\<close> and no check of its
  arguments, so the result is never an error.
\<close>

definition init :: "int \<Rightarrow> int \<Rightarrow> rat \<Rightarrow> int \<Rightarrow> error + controller" where
  "init min_green max_green smoothing_alpha max_consecutive =
     Inr (init_state min_green max_green smoothing_alpha max_consecutive)"

subsection \<open>update_counts\<close>

text \<open>
  \<^verbatim>\<open>for direction in raw_counts\<close>: the items of \<open>raw_counts\<close> in order. Reading
  \<^verbatim>\<open>self.smooth_counts[direction]\<close> on the right-hand side raises KeyError for an
  unknown direction, before anything is assigned for it.
\<close>

fun update_counts :: "controller \<Rightarrow> (string \<times> int) list \<Rightarrow> error option \<times> controller" where
  "update_counts c [] = (None, c)"
| "update_counts c ((direction, r) # rest) =
     (case map_of (smooth_counts c) direction of
        None \<Rightarrow> (Some (KeyError direction), c)
      | Some s \<Rightarrow>
          update_counts
            (c\<lparr>smooth_counts :=
                 AList.update direction (ALPHA c * s + (1 - ALPHA c) * of_int r) (smooth_counts c)\<rparr>)
            rest)"

subsection \<open>decide_signal\<close>

text \<open>Python's \<^verbatim>\<open>max(values)\<close>: ValueError on an empty list, else the first maximum.\<close>

fun py_max :: "rat list \<Rightarrow> rat option" where
  "py_max [] = None"
| "py_max (x # xs) = Some (foldl (\<lambda>m y. if m < y then y else m) x xs)"

text \<open>Python's \<^verbatim>\<open>values.index(v)\<close>: the first position holding \<open>v\<close>.\<close>

fun index_of :: "rat list \<Rightarrow> rat \<Rightarrow> nat option" where
  "index_of [] v = None"
| "index_of (x # xs) v = (if x = v then Some 0 else map_option Suc (index_of xs v))"

text \<open>Python's \<^verbatim>\<open>int(x)\<close> on a float: truncation towards zero.\<close>

definition py_int :: "rat \<Rightarrow> int" where
  "py_int x = (if 0 \<le> x then \<lfloor>x\<rfloor> else \<lceil>x\<rceil>)"

text \<open>Lines 83 to 87: the direction at the first position of the maximum.\<close>

definition argmax_candidate :: "(string \<times> rat) list \<Rightarrow> error + string" where
  "argmax_candidate sc =
     (let directions = map fst sc;
          values = map snd sc
      in case py_max values of
           None \<Rightarrow> Inl ValueError
         | Some m \<Rightarrow>
             (case index_of values m of
                None \<Rightarrow> Inl ValueError
              | Some max_index \<Rightarrow> Inr (directions ! max_index)))"

text \<open>
  Lines 97 to 101: \<^verbatim>\<open>sorted(items, key=lambda x: x[1], reverse=True)\<close>. Python's sort
  is stable also with \<^verbatim>\<open>reverse=True\<close> (items of equal key keep their order), which
  is a stable ascending sort on the negated key.
\<close>

definition sorted_dirs :: "(string \<times> rat) list \<Rightarrow> (string \<times> rat) list" where
  "sorted_dirs sc = sort_key (\<lambda>x. - snd x) sc"

text \<open>Lines 103 to 106: the first direction that is not \<open>last_green\<close>, if there is one.\<close>

fun first_other :: "(string \<times> rat) list \<Rightarrow> string option \<Rightarrow> string \<Rightarrow> string" where
  "first_other [] lg selected = selected"
| "first_other ((d, v) # rest) lg selected =
     (if Some d \<noteq> lg then d else first_other rest lg selected)"

text \<open>Lines 83 to 120: the body of the \<^verbatim>\<open>if\<close>.\<close>

definition select_phase :: "controller \<Rightarrow> error + controller" where
  "select_phase c =
     (case argmax_candidate (smooth_counts c) of
        Inl e \<Rightarrow> Inl e
      | Inr selected \<Rightarrow>
          (let cc = (if Some selected = last_green c then consecutive_count c + 1 else 1);
               selected' = (if cc > MAX_CONSECUTIVE c
                            then first_other (sorted_dirs (smooth_counts c)) (last_green c) selected
                            else selected);
               cc' = (if cc > MAX_CONSECUTIVE c then 1 else cc)
           in case map_of (smooth_counts c) selected' of
                None \<Rightarrow> Inl (KeyError selected')
              | Some s \<Rightarrow>
                  (let calculated_time = py_int s * 2;
                       calculated_time' = max (MIN_GREEN c) (min calculated_time (MAX_GREEN c))
                   in Inr (c\<lparr>consecutive_count := cc',
                              current_green := Some selected',
                              last_green := Some selected',
                              current_duration := calculated_time'\<rparr>))))"

text \<open>Line 81: the guard of the selection.\<close>

definition phase_expired :: "controller \<Rightarrow> rat \<Rightarrow> bool" where
  "phase_expired c current_time \<longleftrightarrow> current_green c = None \<or> current_time \<ge> green_end_time c"

text \<open>
  \<^verbatim>\<open>decide_signal\<close>: \<open>current_time\<close> is the reading of line 79, \<open>now\<close> the reading of
  line 123. The result is the new state and the returned pair.
\<close>

definition decide_signal ::
  "controller \<Rightarrow> rat \<Rightarrow> rat \<Rightarrow> error + (controller \<times> (string option \<times> int))" where
  "decide_signal c current_time now =
     (case (if phase_expired c current_time then select_phase c else Inr c) of
        Inl e \<Rightarrow> Inl e
      | Inr c' \<Rightarrow>
          (let remaining = py_int (green_end_time c' - now);
               remaining' = (if remaining < 0 then 0 else remaining)
           in Inr (c', (current_green c', remaining'))))"

subsection \<open>Sequences of updates and the scenario of the specification\<close>




text \<open>Scenario A: the default configuration, one update with the counts 12, 3, 1, 2.\<close>

definition scenario_A_raw :: "(string \<times> int) list" where
  "scenario_A_raw = [(''NORTH'', 12), (''EAST'', 3), (''SOUTH'', 1), (''WEST'', 2)]"

definition scenario_A_state :: controller where
  "scenario_A_state = snd (update_counts (init_state 15 90 (7/10) 2) scenario_A_raw)"

subsection \<open>The control loop\<close>

text \<open>
  The loop of \<^verbatim>\<open>main.py\<close> (lines 130 to 141): each tick calls \<open>update_counts\<close> and then
  \<open>decide_signal\<close>; an exception ends the loop. A tick is the raw counts and the two
  clock readings of \<open>decide_signal\<close>. Besides the final state the run returns the
  selections: the direction returned by each call that ran the selection.
\<close>

fun run :: "controller \<Rightarrow> ((string \<times> int) list \<times> rat \<times> rat) list
              \<Rightarrow> error + (controller \<times> string option list)" where
  "run c [] = Inr (c, [])"
| "run c ((raw_counts, current_time, now) # ticks) =
     (case update_counts c raw_counts of
        (Some e, c1) \<Rightarrow> Inl e
      | (None, c1) \<Rightarrow>
          (case decide_signal c1 current_time now of
             Inl e \<Rightarrow> Inl e
           | Inr (c2, (g, remaining)) \<Rightarrow>
               (case run c2 ticks of
                  Inl e \<Rightarrow> Inl e
                | Inr (c3, sels) \<Rightarrow>
                    Inr (c3, (if phase_expired c1 current_time then [g] else []) @ sels))))"

text \<open>
  The invariant of the fairness counters: the dictionary has the four directions in order,
  the limit is at least 1, and once a direction has been selected the counter is between
  1 and the limit.
\<close>

definition fair_state :: "controller \<Rightarrow> bool" where
  "fair_state c \<longleftrightarrow>
     map fst (smooth_counts c) = known_directions \<and> 1 \<le> MAX_CONSECUTIVE c \<and>
     (last_green c = None \<or>
        (1 \<le> consecutive_count c \<and> consecutive_count c \<le> MAX_CONSECUTIVE c))"

text \<open>Four ticks with the counts of scenario A.\<close>

definition scenario_ticks :: "((string \<times> int) list \<times> rat \<times> rat) list" where
  "scenario_ticks = [(scenario_A_raw, 1000, 1000), (scenario_A_raw, 1001, 1001),
          (scenario_A_raw, 1002, 1002), (scenario_A_raw, 1003, 1003)]"

section \<open>Properties of update_counts\<close>

lemma scenario_A_state_eq:
  "scenario_A_state = (init_state 15 90 (7/10) 2)\<lparr>smooth_counts :=
      [(''NORTH'', 18/5), (''EAST'', 9/10), (''SOUTH'', 3/10), (''WEST'', 3/5)]\<rparr>"
  by (simp add: scenario_A_state_def scenario_A_raw_def init_state_def)

lemma update_counts_other_fields:
  "snd (update_counts c raw) = c\<lparr>smooth_counts := smooth_counts (snd (update_counts c raw))\<rparr>"
  by (induction c raw rule: update_counts.induct) (auto split: option.splits)

lemma update_counts_keys:
  "map fst (smooth_counts (snd (update_counts c raw))) = map fst (smooth_counts c)"
proof (induction c raw rule: update_counts.induct)
  case (1 c)
  then show ?case by simp
next
  case (2 c direction r rest)
  show ?case
  proof (cases "map_of (smooth_counts c) direction")
    case None
    then show ?thesis by simp
  next
    case (Some s)
    then have "direction \<in> set (map fst (smooth_counts c))"
      by (metis map_of_eq_None_iff option.distinct(1) set_map)
    with 2 Some show ?thesis by (simp add: update_keys)
  qed
qed

lemma update_counts_untouched:
  "d \<notin> fst ` set raw \<Longrightarrow>
   map_of (smooth_counts (snd (update_counts c raw))) d = map_of (smooth_counts c) d"
  by (induction c raw rule: update_counts.induct) (auto split: option.splits simp: update_conv')

lemma update_counts_no_error:
  "fst ` set raw \<subseteq> fst ` set (smooth_counts c) \<Longrightarrow> fst (update_counts c raw) = None"
proof (induction c raw rule: update_counts.induct)
  case (1 c)
  then show ?case by simp
next
  case (2 c direction r rest)
  from 2(2) have "direction \<in> fst ` set (smooth_counts c)" by simp
  then obtain s where s: "map_of (smooth_counts c) direction = Some s"
    by (metis map_of_eq_None_iff not_Some_eq)
  have "fst ` set rest \<subseteq> fst ` set (AList.update direction (ALPHA c * s + (1 - ALPHA c) * of_int r) (smooth_counts c))"
    using 2(2) by (auto simp: dom_update)
  with 2(1)[OF s] s show ?case by simp
qed




text \<open>
  C10. Whatever the raw counts are, \<open>update_counts\<close> changes no field other than
  \<open>smooth_counts\<close>, keeps the keys of \<open>smooth_counts\<close> and their order, and leaves
  the smoothed demand of every direction that is not a key of the raw counts as it was.
\<close>

theorem update_counts_frame:
  "snd (update_counts c raw_counts)
     = c\<lparr>smooth_counts := smooth_counts (snd (update_counts c raw_counts))\<rparr>
   \<and> map fst (smooth_counts (snd (update_counts c raw_counts))) = map fst (smooth_counts c)
   \<and> (\<forall>d. d \<notin> fst ` set raw_counts \<longrightarrow>
          map_of (smooth_counts (snd (update_counts c raw_counts))) d
            = map_of (smooth_counts c) d)"
  using update_counts_other_fields[of c raw_counts] update_counts_keys[of c raw_counts]
    update_counts_untouched[of _ raw_counts c]
  by blast

theorem update_counts_frame_witness:
  "''EAST'' \<notin> fst ` set [(''NORTH'', 5 :: int)]
   \<and> map_of (smooth_counts (snd (update_counts scenario_A_state [(''NORTH'', 5)]))) ''EAST''
       = Some (9/10)
   \<and> map_of (smooth_counts (snd (update_counts scenario_A_state [(''NORTH'', 5)]))) ''NORTH''
       = Some (201/50)"
  using update_counts_frame [of scenario_A_state "[(''NORTH'', 5)]"]
  by (simp add: scenario_A_state_eq init_state_def)

subsection \<open>The smoothing bound\<close>









section \<open>The constructor\<close>

text \<open>
  C9 as stated fails: the constructor accepts a configuration with
  \<open>min_green > max_green\<close>, and one with \<open>smoothing_alpha = 3/2\<close>.
\<close>

theorem init_accepts_invalid_config:
  "\<not> isl (init 90 15 (7/10) 2) \<and> \<not> isl (init 15 90 (3/2) 2)"
  by (simp add: init_def)

text \<open>
  C9, amended. For every configuration, valid or not, the constructor raises nothing
  and stores the four parameters as they were given.
\<close>

theorem init_never_fails:
  "init min_green max_green smoothing_alpha max_consecutive
     = Inr (init_state min_green max_green smoothing_alpha max_consecutive)
   \<and> MIN_GREEN (init_state min_green max_green smoothing_alpha max_consecutive) = min_green
   \<and> MAX_GREEN (init_state min_green max_green smoothing_alpha max_consecutive) = max_green
   \<and> ALPHA (init_state min_green max_green smoothing_alpha max_consecutive) = smoothing_alpha
   \<and> MAX_CONSECUTIVE (init_state min_green max_green smoothing_alpha max_consecutive)
       = max_consecutive"
  by (simp add: init_def init_state_def)

section \<open>Scenario A and the phase timing\<close>

text \<open>
  C8 as stated fails: after one update from the all-zero state the smoothed demand of
  NORTH is \<open>0.3 * 12 = 3.6\<close>, not 12, so the duration is \<open>max 15 (min 6 90) = 15\<close>, not 24.
\<close>

theorem scenario_A_duration_not_24:
  "select_phase scenario_A_state =
     Inr (scenario_A_state\<lparr>consecutive_count := 1, current_green := Some ''NORTH'',
            last_green := Some ''NORTH'', current_duration := 15\<rparr>)
   \<and> current_duration (scenario_A_state\<lparr>consecutive_count := 1, current_green := Some ''NORTH'',
            last_green := Some ''NORTH'', current_duration := 15\<rparr>) \<noteq> 24"
  by code_simp

text \<open>
  C8, amended. From the initial state with \<open>ALPHA = 0.7\<close>, after one update with the raw
  counts 12, 3, 1, 2 the first call of \<open>decide_signal\<close>, at any time, selects NORTH
  and computes the phase duration 15.
\<close>

theorem scenario_A_duration_15:
  "\<exists>r. decide_signal scenario_A_state t1 t2 =
     Inr (scenario_A_state\<lparr>consecutive_count := 1, current_green := Some ''NORTH'',
            last_green := Some ''NORTH'', current_duration := 15\<rparr>, (Some ''NORTH'', r))"
proof -
  have fl: "\<lfloor>18 / 5 :: rat\<rfloor> = 3" by code_simp
  show ?thesis
    by (simp add: decide_signal_def phase_expired_def scenario_A_state_eq init_state_def
        select_phase_def argmax_candidate_def py_int_def sorted_dirs_def Let_def fl)
qed

text \<open>
  C2 at the failing input: the first call on a fresh controller, at time 1000, starts a
  phase of duration 15 and returns the remaining time 0, because \<open>green_end_time\<close> is
  still 0.
\<close>

theorem decide_signal_remaining_zero_at_phase_start:
  "decide_signal (init_state 15 90 (7/10) 2) 1000 1000 =
     Inr ((init_state 15 90 (7/10) 2)\<lparr>consecutive_count := 1, current_green := Some ''NORTH'',
            last_green := Some ''NORTH'', current_duration := 15\<rparr>, (Some ''NORTH'', 0))"
  by code_simp

text \<open>
  C1 at the failing input: three calls at times 1000, 1001 and 1002, with the demand of
  scenario A unchanged. The first starts a phase of duration 15; the second and third
  fall inside it, and yet the second increments \<open>consecutive_count\<close> and the third
  returns EAST.
\<close>

theorem decide_signal_phase_not_stable:
  "decide_signal scenario_A_state 1000 1000 =
     Inr (scenario_A_state\<lparr>consecutive_count := 1, current_green := Some ''NORTH'',
            last_green := Some ''NORTH'', current_duration := 15\<rparr>, (Some ''NORTH'', 0))
  \<and> decide_signal (scenario_A_state\<lparr>consecutive_count := 1, current_green := Some ''NORTH'',
            last_green := Some ''NORTH'', current_duration := 15\<rparr>) 1001 1001 =
     Inr (scenario_A_state\<lparr>consecutive_count := 2, current_green := Some ''NORTH'',
            last_green := Some ''NORTH'', current_duration := 15\<rparr>, (Some ''NORTH'', 0))
  \<and> decide_signal (scenario_A_state\<lparr>consecutive_count := 2, current_green := Some ''NORTH'',
            last_green := Some ''NORTH'', current_duration := 15\<rparr>) 1002 1002 =
     Inr (scenario_A_state\<lparr>consecutive_count := 1, current_green := Some ''EAST'',
            last_green := Some ''EAST'', current_duration := 15\<rparr>, (Some ''EAST'', 0))"
  by code_simp

section \<open>The selection step\<close>

lemma foldl_pick_mem:
  "foldl (\<lambda>m y. if m < y then y else m) (x::rat) xs \<in> set (x # xs)"
  by (induction xs arbitrary: x) auto

lemma foldl_pick_ge:
  "y \<in> set (x # xs) \<Longrightarrow> y \<le> foldl (\<lambda>m y. if m < y then y else m) (x::rat) xs"
proof (induction xs arbitrary: x y)
  case Nil
  then show ?case by simp
next
  case (Cons a xs)
  have step: "x \<le> foldl (\<lambda>m y. if m < y then y else m) (if x < a then a else x) xs"
    "a \<le> foldl (\<lambda>m y. if m < y then y else m) (if x < a then a else x) xs"
    using Cons.IH[of "if x < a then a else x" "if x < a then a else x"]
    by (auto split: if_splits)
  from Cons.prems consider "y = x" | "y = a" | "y \<in> set xs" by auto
  then show ?case
  proof cases
    case 1 with step show ?thesis by simp
  next
    case 2 with step show ?thesis by simp
  next
    case 3
    then show ?thesis using Cons.IH[of y "if x < a then a else x"] by simp
  qed
qed

lemma py_max_spec:
  "vs \<noteq> [] \<Longrightarrow> \<exists>m. py_max vs = Some m \<and> m \<in> set vs \<and> (\<forall>y \<in> set vs. y \<le> m)"
proof (cases vs)
  case Nil
  assume "vs \<noteq> []" with Nil show ?thesis by simp
next
  case (Cons x xs)
  show ?thesis
    unfolding Cons py_max.simps
    using foldl_pick_mem[of x xs] foldl_pick_ge[of _ x xs] by blast
qed

lemma index_of_first:
  "v \<in> set xs \<Longrightarrow>
   \<exists>i. index_of xs v = Some i \<and> i < length xs \<and> xs ! i = v \<and> (\<forall>j<i. xs ! j \<noteq> v)"
proof (induction xs)
  case Nil
  then show ?case by simp
next
  case (Cons x xs)
  show ?case
  proof (cases "x = v")
    case True
    then show ?thesis by simp
  next
    case False
    with Cons.prems have "v \<in> set xs" by simp
    from Cons.IH[OF this] obtain i where i: "index_of xs v = Some i" "i < length xs"
      "xs ! i = v" "\<forall>j<i. xs ! j \<noteq> v" by blast
    have "\<forall>j<Suc i. (x # xs) ! j \<noteq> v"
    proof (intro allI impI)
      fix j assume "j < Suc i"
      then show "(x # xs) ! j \<noteq> v" using False i(4) by (cases j) auto
    qed
    with False i show ?thesis by simp
  qed
qed

lemma argmax_candidate_first_max:
  assumes "sc \<noteq> []"
  shows "\<exists>i<length sc. argmax_candidate sc = Inr (fst (sc ! i))
           \<and> (\<forall>j<length sc. snd (sc ! j) \<le> snd (sc ! i))
           \<and> (\<forall>j<i. snd (sc ! j) < snd (sc ! i))"
proof -
  let ?vs = "map snd sc"
  from assms have "?vs \<noteq> []" by simp
  from py_max_spec[OF this] obtain m where m: "py_max ?vs = Some m" "m \<in> set ?vs"
    "\<forall>y \<in> set ?vs. y \<le> m" by blast
  from index_of_first[OF m(2)] obtain i where i: "index_of ?vs m = Some i" "i < length ?vs"
    "?vs ! i = m" "\<forall>j<i. ?vs ! j \<noteq> m" by blast
  have il: "i < length sc" using i(2) by simp
  have cand: "argmax_candidate sc = Inr (fst (sc ! i))"
    using m(1) i(1) il by (simp add: argmax_candidate_def)
  have mi: "snd (sc ! i) = m" using i(3) il by simp
  have le: "\<forall>j<length sc. snd (sc ! j) \<le> snd (sc ! i)"
  proof (intro allI impI)
    fix j assume j: "j < length sc"
    then have "snd (sc ! j) \<in> set ?vs" by (metis length_map nth_map nth_mem)
    with m(3) have "snd (sc ! j) \<le> m" by blast
    with mi show "snd (sc ! j) \<le> snd (sc ! i)" by simp
  qed
  have lt: "\<forall>j<i. snd (sc ! j) < snd (sc ! i)"
  proof (intro allI impI)
    fix j assume j: "j < i"
    with il have jl: "j < length sc" by simp
    from i(4) j have "?vs ! j \<noteq> m" by blast
    with jl have "snd (sc ! j) \<noteq> m" by simp
    moreover from le jl mi have "snd (sc ! j) \<le> m" by auto
    ultimately show "snd (sc ! j) < snd (sc ! i)" using mi by simp
  qed
  from il cand le lt show ?thesis by blast
qed

text \<open>
  C7. When the keys of the demand dictionary are NORTH, EAST, SOUTH, WEST in this order,
  the candidate of the selection step is the direction at the first position \<open>i\<close> of that
  order whose demand is maximal: no demand is larger, and every direction before position
  \<open>i\<close> has a strictly smaller demand. The candidate is a function of the dictionary alone.
\<close>

theorem argmax_candidate_first_in_order:
  assumes "map fst (smooth_counts c) = known_directions"
  shows "\<exists>i<4. argmax_candidate (smooth_counts c) = Inr (known_directions ! i)
           \<and> (\<forall>j<4. snd (smooth_counts c ! j) \<le> snd (smooth_counts c ! i))
           \<and> (\<forall>j<i. snd (smooth_counts c ! j) < snd (smooth_counts c ! i))"
proof -
  have "length (map fst (smooth_counts c)) = 4"
    unfolding assms by (simp add: known_directions_def)
  then have len: "length (smooth_counts c) = 4" by simp
  then have ne: "smooth_counts c \<noteq> []" by auto
  from argmax_candidate_first_max[OF ne] obtain i where i: "i < length (smooth_counts c)"
    "argmax_candidate (smooth_counts c) = Inr (fst (smooth_counts c ! i))"
    "\<forall>j<length (smooth_counts c). snd (smooth_counts c ! j) \<le> snd (smooth_counts c ! i)"
    "\<forall>j<i. snd (smooth_counts c ! j) < snd (smooth_counts c ! i)" by blast
  have "fst (smooth_counts c ! i) = known_directions ! i"
    using assms i(1) by (metis nth_map)
  with i len show ?thesis by auto
qed

theorem argmax_candidate_first_in_order_witness:
  "map fst [(''NORTH'', 2 :: rat), (''EAST'', 5), (''SOUTH'', 5), (''WEST'', 1)] = known_directions
   \<and> argmax_candidate [(''NORTH'', 2), (''EAST'', 5), (''SOUTH'', 5), (''WEST'', 1)] = Inr ''EAST''
   \<and> (\<exists>i<4. argmax_candidate (smooth_counts (scenario_A_state\<lparr>smooth_counts :=
              [(''NORTH'', 2), (''EAST'', 5), (''SOUTH'', 5), (''WEST'', 1)]\<rparr>))
            = Inr (known_directions ! i))"
proof -
  let ?c = "scenario_A_state\<lparr>smooth_counts :=
              [(''NORTH'', 2), (''EAST'', 5), (''SOUTH'', 5), (''WEST'', 1)]\<rparr>"
  have keys: "map fst (smooth_counts ?c) = known_directions"
    by (simp add: known_directions_def)
  have "\<exists>i<4. argmax_candidate (smooth_counts ?c) = Inr (known_directions ! i)"
    using argmax_candidate_first_in_order [OF keys] by blast
  moreover have "argmax_candidate [(''NORTH'', 2), (''EAST'', 5), (''SOUTH'', 5), (''WEST'', 1)]
      = Inr ''EAST''"
    by (simp add: argmax_candidate_def)
  ultimately show ?thesis
    using keys by simp
qed

subsection \<open>The state written by a selection\<close>

lemma argmax_candidate_key:
  assumes "sc \<noteq> []"
  shows "\<exists>sel. argmax_candidate sc = Inr sel \<and> sel \<in> fst ` set sc"
proof -
  from argmax_candidate_first_max[OF assms] obtain i where
    "i < length sc" "argmax_candidate sc = Inr (fst (sc ! i))" by blast
  then show ?thesis by (metis image_eqI nth_mem)
qed

lemma first_other_key:
  "first_other xs lg sel = sel \<or> first_other xs lg sel \<in> fst ` set xs"
  by (induction xs lg sel rule: first_other.induct) auto

lemma first_other_differs:
  "(d', v') \<in> set xs \<Longrightarrow> Some d' \<noteq> lg \<Longrightarrow>
   Some (first_other xs lg sel) \<noteq> lg \<and> first_other xs lg sel \<in> fst ` set xs"
  by (induction xs lg sel rule: first_other.induct) (auto simp: image_iff)

lemma first_other_sorted:
  "sorted (map (\<lambda>x. - snd x) xs) \<Longrightarrow> (d', v') \<in> set xs \<Longrightarrow> Some d' \<noteq> lg \<Longrightarrow>
   \<exists>v. (first_other xs lg sel, v) \<in> set xs \<and> v' \<le> v"
proof (induction xs lg sel rule: first_other.induct)
  case (1 lg selected)
  then show ?case by simp
next
  case (2 d v rest lg selected)
  show ?case
  proof (cases "Some d \<noteq> lg")
    case True
    from 2(2,3) have "v' \<le> v" by auto
    with True show ?thesis by auto
  next
    case False
    with 2(3,4) have "(d', v') \<in> set rest" by auto
    moreover from 2(2) have "sorted (map (\<lambda>x. - snd x) rest)" by simp
    ultimately obtain w where "(first_other rest lg selected, w) \<in> set rest" "v' \<le> w"
      using 2(1)[OF False _ _ 2(4)] False by blast
    with False show ?thesis by auto
  qed
qed

lemma sorted_dirs_set: "set (sorted_dirs sc) = set sc"
  by (simp add: sorted_dirs_def)

lemma sorted_dirs_sorted: "sorted (map (\<lambda>x. - snd x) (sorted_dirs sc))"
  by (simp add: sorted_dirs_def)

text \<open>The state written by a selection, with the values of the local variables.\<close>

lemma select_phase_eq:
  assumes "argmax_candidate (smooth_counts c) = Inr sel"
    and "cc = (if Some sel = last_green c then consecutive_count c + 1 else 1)"
    and "sel' = (if cc > MAX_CONSECUTIVE c
                 then first_other (sorted_dirs (smooth_counts c)) (last_green c) sel else sel)"
    and "map_of (smooth_counts c) sel' = Some s"
  shows "select_phase c =
           Inr (c\<lparr>consecutive_count := (if cc > MAX_CONSECUTIVE c then 1 else cc),
                  current_green := Some sel',
                  last_green := Some sel',
                  current_duration := max (MIN_GREEN c) (min (py_int s * 2) (MAX_GREEN c))\<rparr>)"
  using assms by (simp add: select_phase_def Let_def)

lemma select_phase_total:
  assumes "smooth_counts c \<noteq> []"
  shows "\<exists>sel cc sel' s.
           argmax_candidate (smooth_counts c) = Inr sel
         \<and> cc = (if Some sel = last_green c then consecutive_count c + 1 else 1)
         \<and> sel' = (if cc > MAX_CONSECUTIVE c
                    then first_other (sorted_dirs (smooth_counts c)) (last_green c) sel else sel)
         \<and> map_of (smooth_counts c) sel' = Some s
         \<and> select_phase c =
             Inr (c\<lparr>consecutive_count := (if cc > MAX_CONSECUTIVE c then 1 else cc),
                    current_green := Some sel',
                    last_green := Some sel',
                    current_duration := max (MIN_GREEN c) (min (py_int s * 2) (MAX_GREEN c))\<rparr>)"
proof -
  from argmax_candidate_key[OF assms] obtain sel where
    sel: "argmax_candidate (smooth_counts c) = Inr sel" "sel \<in> fst ` set (smooth_counts c)"
    by blast
  define cc where "cc = (if Some sel = last_green c then consecutive_count c + 1 else 1)"
  define sel' where "sel' = (if cc > MAX_CONSECUTIVE c
                 then first_other (sorted_dirs (smooth_counts c)) (last_green c) sel else sel)"
  have "sel' \<in> fst ` set (smooth_counts c)"
    using first_other_key[of "sorted_dirs (smooth_counts c)" "last_green c" sel] sel(2)
    by (auto simp: sel'_def sorted_dirs_set)
  then obtain s where s: "map_of (smooth_counts c) sel' = Some s"
    by (metis map_of_eq_None_iff not_Some_eq)
  from select_phase_eq[OF sel(1) cc_def sel'_def s] sel(1) cc_def sel'_def s
  show ?thesis by blast
qed

lemma py_int_floor: "0 \<le> x \<Longrightarrow> py_int x = \<lfloor>x\<rfloor>"
  by (simp add: py_int_def)

text \<open>
  C5. When \<open>decide_signal\<close> runs the selection on a non-empty demand dictionary with
  non-negative demands and \<open>MIN_GREEN \<le> MAX_GREEN\<close>, it raises nothing, and the duration it
  stores is \<open>floor(demand of the selected direction) * 2\<close> clamped by
  \<open>max MIN_GREEN (min _ MAX_GREEN)\<close>, which lies between \<open>MIN_GREEN\<close> and \<open>MAX_GREEN\<close>.
\<close>

theorem phase_duration_clamped:
  assumes "smooth_counts c \<noteq> []"
    and "phase_expired c current_time"
    and "MIN_GREEN c \<le> MAX_GREEN c"
    and "\<forall>(d, v) \<in> set (smooth_counts c). 0 \<le> v"
  shows "\<exists>c' d s r. decide_signal c current_time now = Inr (c', (Some d, r))
           \<and> current_green c' = Some d
           \<and> map_of (smooth_counts c) d = Some s
           \<and> current_duration c' = max (MIN_GREEN c) (min (\<lfloor>s\<rfloor> * 2) (MAX_GREEN c))
           \<and> MIN_GREEN c \<le> current_duration c' \<and> current_duration c' \<le> MAX_GREEN c"
proof -
  from select_phase_total[OF assms(1)] obtain sel cc sel' s where
    s: "map_of (smooth_counts c) sel' = Some s"
    and sp: "select_phase c =
             Inr (c\<lparr>consecutive_count := (if cc > MAX_CONSECUTIVE c then 1 else cc),
                    current_green := Some sel',
                    last_green := Some sel',
                    current_duration := max (MIN_GREEN c) (min (py_int s * 2) (MAX_GREEN c))\<rparr>)"
    by blast
  from s have "(sel', s) \<in> set (smooth_counts c)" by (rule map_of_SomeD)
  with assms(4) have "0 \<le> s" by auto
  then have fl: "py_int s = \<lfloor>s\<rfloor>" by (rule py_int_floor)
  show ?thesis
    using sp s fl assms(2,3) by (simp add: decide_signal_def Let_def)
qed

theorem phase_duration_clamped_witness:
  "smooth_counts (scenario_A_state\<lparr>smooth_counts :=
       [(''NORTH'', 41/2), (''EAST'', 5), (''SOUTH'', 5), (''WEST'', 1)]\<rparr>) \<noteq> []
   \<and> phase_expired (scenario_A_state\<lparr>smooth_counts :=
       [(''NORTH'', 41/2), (''EAST'', 5), (''SOUTH'', 5), (''WEST'', 1)]\<rparr>) 1000
   \<and> MIN_GREEN scenario_A_state \<le> MAX_GREEN scenario_A_state
   \<and> (\<exists>c' r. decide_signal (scenario_A_state\<lparr>smooth_counts :=
       [(''NORTH'', 41/2), (''EAST'', 5), (''SOUTH'', 5), (''WEST'', 1)]\<rparr>) 1000 1000
         = Inr (c', (Some ''NORTH'', r))
       \<and> current_duration c' = 40 \<and> 15 \<le> current_duration c' \<and> current_duration c' \<le> 90)"
proof -
  let ?c = "scenario_A_state\<lparr>smooth_counts :=
       [(''NORTH'', 41/2), (''EAST'', 5), (''SOUTH'', 5), (''WEST'', 1)]\<rparr>"
  have h1: "smooth_counts ?c \<noteq> []" by simp
  have h2: "phase_expired ?c 1000"
    by (simp add: phase_expired_def scenario_A_state_eq init_state_def)
  have h3: "MIN_GREEN ?c \<le> MAX_GREEN ?c"
    by (simp add: scenario_A_state_eq init_state_def)
  have h4: "\<forall>(d, v) \<in> set (smooth_counts ?c). 0 \<le> v" by simp
  from phase_duration_clamped [OF h1 h2 h3 h4, of 1000] obtain c' d s r where
    res: "decide_signal ?c 1000 1000 = Inr (c', (Some d, r))"
    "map_of (smooth_counts ?c) d = Some s"
    "current_duration c' = max (MIN_GREEN ?c) (min (\<lfloor>s\<rfloor> * 2) (MAX_GREEN ?c))"
    "MIN_GREEN ?c \<le> current_duration c'" "current_duration c' \<le> MAX_GREEN ?c"
    by blast
  have ev: "decide_signal ?c 1000 1000 =
     Inr (?c\<lparr>consecutive_count := 1, current_green := Some ''NORTH'',
            last_green := Some ''NORTH'', current_duration := 40\<rparr>, (Some ''NORTH'', 0))"
    unfolding scenario_A_state_eq by code_simp
  note e = ev[unfolded res(1)]
  from e have d: "d = ''NORTH''" by simp
  from e have c': "c' = ?c\<lparr>consecutive_count := 1, current_green := Some ''NORTH'',
            last_green := Some ''NORTH'', current_duration := 40\<rparr>"
    by simp
  have dur: "current_duration c' = 40" unfolding c' by simp
  have lo: "15 \<le> current_duration c'"
    using res(4) by (simp add: scenario_A_state_eq init_state_def)
  have hi: "current_duration c' \<le> 90"
    using res(5) by (simp add: scenario_A_state_eq init_state_def)
  from res(1) d dur lo hi
  have "\<exists>c' r. decide_signal ?c 1000 1000 = Inr (c', (Some ''NORTH'', r))
       \<and> current_duration c' = 40 \<and> 15 \<le> current_duration c' \<and> current_duration c' \<le> 90"
    by blast
  moreover have "MIN_GREEN scenario_A_state \<le> MAX_GREEN scenario_A_state"
    by (simp add: scenario_A_state_eq init_state_def)
  ultimately show ?thesis using h1 h2 by blast
qed

subsection \<open>Fairness\<close>

lemma known_other:
  assumes "map fst sc = known_directions"
  shows "\<exists>d' v'. (d', v') \<in> set sc \<and> Some d' \<noteq> lg"
proof -
  have "''NORTH'' \<in> set (map fst sc)" "''EAST'' \<in> set (map fst sc)"
    unfolding assms by (simp_all add: known_directions_def)
  then obtain v w where "(''NORTH'', v) \<in> set sc" "(''EAST'', w) \<in> set sc"
    by auto
  moreover have "Some ''NORTH'' \<noteq> lg \<or> Some ''EAST'' \<noteq> lg" by auto
  ultimately show ?thesis by blast
qed

lemma known_nonempty: "map fst sc = known_directions \<Longrightarrow> sc \<noteq> []"
  by (auto simp: known_directions_def)

lemma select_phase_fair:
  assumes "fair_state c"
  shows "\<exists>c2 g. select_phase c = Inr c2 \<and> current_green c2 = Some g \<and> last_green c2 = Some g
           \<and> fair_state c2 \<and> MAX_CONSECUTIVE c2 = MAX_CONSECUTIVE c
           \<and> green_end_time c2 = green_end_time c
           \<and> (last_green c = Some g \<longrightarrow> consecutive_count c2 = consecutive_count c + 1)"
proof -
  from assms have keys: "map fst (smooth_counts c) = known_directions"
    and mx: "1 \<le> MAX_CONSECUTIVE c"
    and cnt: "last_green c = None \<or>
        (1 \<le> consecutive_count c \<and> consecutive_count c \<le> MAX_CONSECUTIVE c)"
    by (simp_all add: fair_state_def)
  from select_phase_total[OF known_nonempty[OF keys]] obtain sel cc sel' s where
    cc: "cc = (if Some sel = last_green c then consecutive_count c + 1 else 1)"
    and sel': "sel' = (if cc > MAX_CONSECUTIVE c
                    then first_other (sorted_dirs (smooth_counts c)) (last_green c) sel else sel)"
    and sp: "select_phase c =
             Inr (c\<lparr>consecutive_count := (if cc > MAX_CONSECUTIVE c then 1 else cc),
                    current_green := Some sel',
                    last_green := Some sel',
                    current_duration := max (MIN_GREEN c) (min (py_int s * 2) (MAX_GREEN c))\<rparr>)"
    by blast
  let ?c2 = "c\<lparr>consecutive_count := (if cc > MAX_CONSECUTIVE c then 1 else cc),
                    current_green := Some sel',
                    last_green := Some sel',
                    current_duration := max (MIN_GREEN c) (min (py_int s * 2) (MAX_GREEN c))\<rparr>"
  have cc1: "1 \<le> cc" using cc cnt by (auto split: if_splits)
  have fair: "fair_state ?c2"
    using keys mx cc1 by (simp add: fair_state_def)
  have step: "last_green c = Some sel' \<longrightarrow> consecutive_count ?c2 = consecutive_count c + 1"
  proof
    assume lg: "last_green c = Some sel'"
    show "consecutive_count ?c2 = consecutive_count c + 1"
    proof (cases "cc > MAX_CONSECUTIVE c")
      case True
      from known_other[OF keys, of "last_green c"] obtain d' v' where
        "(d', v') \<in> set (sorted_dirs (smooth_counts c))" "Some d' \<noteq> last_green c"
        by (auto simp: sorted_dirs_set)
      from first_other_differs[OF this, of sel] True sel' have "Some sel' \<noteq> last_green c"
        by simp
      with lg show ?thesis by simp
    next
      case False
      with sel' have "sel' = sel" by simp
      with lg cc False show ?thesis by simp
    qed
  qed
  from sp fair step show ?thesis by auto
qed

lemma update_counts_fair:
  "fair_state c \<Longrightarrow> fair_state (snd (update_counts c raw))"
  by (subst update_counts_other_fields) (simp add: fair_state_def update_counts_keys)

lemma update_counts_same:
  "last_green (snd (update_counts c raw)) = last_green c"
  "consecutive_count (snd (update_counts c raw)) = consecutive_count c"
  "MAX_CONSECUTIVE (snd (update_counts c raw)) = MAX_CONSECUTIVE c"
  by (subst update_counts_other_fields, simp)+


lemma decide_signal_cases:
  assumes "decide_signal c current_time now = Inr (c2, (g, r))"
  shows "(phase_expired c current_time \<longrightarrow> select_phase c = Inr c2)
       \<and> (\<not> phase_expired c current_time \<longrightarrow> c2 = c)
       \<and> g = current_green c2"
  using assms by (auto simp: decide_signal_def Let_def split: if_splits sum.splits)

lemma run_fair:
  "fair_state c \<Longrightarrow> run c ticks = Inr (c', sels) \<Longrightarrow>
     (\<forall>pre d k suf. sels = pre @ replicate k d @ suf \<longrightarrow> int k \<le> MAX_CONSECUTIVE c)
   \<and> (\<forall>d k suf. last_green c = Some d \<longrightarrow> sels = replicate k (Some d) @ suf
         \<longrightarrow> consecutive_count c + int k \<le> MAX_CONSECUTIVE c)"
proof (induction ticks arbitrary: c c' sels)
  case Nil
  then have "sels = []" by simp
  moreover have "\<forall>d. last_green c = Some d \<longrightarrow> consecutive_count c \<le> MAX_CONSECUTIVE c"
    using Nil.prems(1) by (auto simp: fair_state_def)
  moreover have "0 \<le> MAX_CONSECUTIVE c"
    using Nil.prems(1) by (simp add: fair_state_def)
  ultimately show ?case by auto
next
  case (Cons tk ticks)
  obtain raw t1 t2 where tk: "tk = (raw, t1, t2)" by (cases tk) auto
  define c1 where "c1 = snd (update_counts c raw)"
  have uc: "update_counts c raw = (None, c1)"
    using Cons.prems(2) unfolding tk c1_def
    by (cases "update_counts c raw") (auto split: option.splits)
  have fair1: "fair_state c1" unfolding c1_def by (rule update_counts_fair[OF Cons.prems(1)])
  have same1: "last_green c1 = last_green c" "consecutive_count c1 = consecutive_count c"
    "MAX_CONSECUTIVE c1 = MAX_CONSECUTIVE c"
    unfolding c1_def by (rule update_counts_same)+
  from Cons.prems(2) uc obtain c2 g r sels0 where
    ds: "decide_signal c1 t1 t2 = Inr (c2, (g, r))"
    and rn: "run c2 ticks = Inr (c', sels0)"
    and sels: "sels = (if phase_expired c1 t1 then [g] else []) @ sels0"
    unfolding tk by (auto split: sum.splits prod.splits)
  note dc = decide_signal_cases[OF ds]
  show ?case
  proof (cases "phase_expired c1 t1")
    case False
    with dc have "c2 = c1" by simp
    with rn fair1 have "(\<forall>pre d k suf. sels0 = pre @ replicate k d @ suf \<longrightarrow> int k \<le> MAX_CONSECUTIVE c1)
       \<and> (\<forall>d k suf. last_green c1 = Some d \<longrightarrow> sels0 = replicate k (Some d) @ suf
         \<longrightarrow> consecutive_count c1 + int k \<le> MAX_CONSECUTIVE c1)"
      using Cons.IH[of c1 c' sels0] by simp
    with False sels same1 show ?thesis by simp
  next
    case True
    with dc have sp: "select_phase c1 = Inr c2" and g: "g = current_green c2" by simp_all
    from select_phase_fair[OF fair1] sp obtain g' where
      g': "current_green c2 = Some g'" "last_green c2 = Some g'" "fair_state c2"
      "MAX_CONSECUTIVE c2 = MAX_CONSECUTIVE c1"
      "last_green c1 = Some g' \<longrightarrow> consecutive_count c2 = consecutive_count c1 + 1"
      by auto
    from Cons.IH[OF g'(3) rn] have
      A: "\<And>pre d k suf. sels0 = pre @ replicate k d @ suf \<Longrightarrow> int k \<le> MAX_CONSECUTIVE c2"
      and B: "\<And>k suf. sels0 = replicate k (Some g') @ suf
                \<Longrightarrow> consecutive_count c2 + int k \<le> MAX_CONSECUTIVE c2"
      using g'(2) by blast+
    have cnt2: "1 \<le> consecutive_count c2"
      using g'(2,3) by (auto simp: fair_state_def)
    have mx: "MAX_CONSECUTIVE c2 = MAX_CONSECUTIVE c" using g'(4) same1(3) by simp
    have sels': "sels = Some g' # sels0" using sels True g g'(1) by simp
    have partA: "\<forall>pre d k suf. sels = pre @ replicate k d @ suf \<longrightarrow> int k \<le> MAX_CONSECUTIVE c"
    proof (intro allI impI)
      fix pre d k suf
      assume eq: "sels = pre @ replicate k d @ suf"
      show "int k \<le> MAX_CONSECUTIVE c"
      proof (cases pre)
        case (Cons x pre')
        with eq sels' have "sels0 = pre' @ replicate k d @ suf" by simp
        from A[OF this] mx show ?thesis by simp
      next
        case Nil
        show ?thesis
        proof (cases k)
          case 0
          then show ?thesis using Cons.prems(1) by (simp add: fair_state_def)
        next
          case (Suc k')
          with Nil eq sels' have "d = Some g'" "sels0 = replicate k' (Some g') @ suf" by simp_all
          from B[OF this(2)] cnt2 mx Suc show ?thesis by simp
        qed
      qed
    qed
    have partB: "\<forall>d k suf. last_green c = Some d \<longrightarrow> sels = replicate k (Some d) @ suf
         \<longrightarrow> consecutive_count c + int k \<le> MAX_CONSECUTIVE c"
    proof (intro allI impI)
      fix d k suf
      assume lg: "last_green c = Some d" and eq: "sels = replicate k (Some d) @ suf"
      show "consecutive_count c + int k \<le> MAX_CONSECUTIVE c"
      proof (cases k)
        case 0
        then show ?thesis using Cons.prems(1) lg by (simp add: fair_state_def)
      next
        case (Suc k')
        with eq sels' have "g' = d" "sels0 = replicate k' (Some g') @ suf" by simp_all
        from B[OF this(2)] g'(5) lg same1 \<open>g' = d\<close> mx Suc show ?thesis by simp
      qed
    qed
    from partA partB show ?thesis by blast
  qed
qed

lemma init_state_fair: "1 \<le> mc \<Longrightarrow> fair_state (init_state mn mx al mc)"
  by (simp add: fair_state_def init_state_def known_directions_def)


lemma run_total:
  "fair_state c \<Longrightarrow> green_end_time c = 0 \<Longrightarrow>
   (\<forall>tk \<in> set ticks. fst ` set (fst tk) \<subseteq> set known_directions \<and> 0 \<le> fst (snd tk)) \<Longrightarrow>
   \<exists>c' sels. run c ticks = Inr (c', sels) \<and> length sels = length ticks"
proof (induction ticks arbitrary: c)
  case Nil
  then show ?case by simp
next
  case (Cons tk ticks)
  obtain raw t1 t2 where tk: "tk = (raw, t1, t2)" by (cases tk) auto
  define c1 where "c1 = snd (update_counts c raw)"
  have keys: "map fst (smooth_counts c) = known_directions"
    using Cons.prems(1) by (simp add: fair_state_def)
  have "fst ` set raw \<subseteq> fst ` set (smooth_counts c)"
    using Cons.prems(3) keys unfolding tk by (metis fst_conv list.set_intros(1) set_map)
  then have "fst (update_counts c raw) = None" by (rule update_counts_no_error)
  then have uc: "update_counts c raw = (None, c1)"
    unfolding c1_def by (cases "update_counts c raw") simp
  have fair1: "fair_state c1" unfolding c1_def by (rule update_counts_fair[OF Cons.prems(1)])
  have "green_end_time c1 = green_end_time c"
    unfolding c1_def by (subst update_counts_other_fields) simp
  with Cons.prems(2) have ge1: "green_end_time c1 = 0" by simp
  have "0 \<le> t1" using Cons.prems(3) unfolding tk by simp
  with ge1 have ex: "phase_expired c1 t1" by (simp add: phase_expired_def)
  from select_phase_fair[OF fair1] obtain c2 g where
    c2: "select_phase c1 = Inr c2" "current_green c2 = Some g" "fair_state c2"
    "green_end_time c2 = green_end_time c1" by blast
  have ds: "\<exists>r. decide_signal c1 t1 t2 = Inr (c2, (Some g, r))"
    using ex c2(1,2) by (simp add: decide_signal_def Let_def)
  from Cons.IH[OF c2(3)] c2(4) ge1 Cons.prems(3) obtain c' sels where
    "run c2 ticks = Inr (c', sels)" "length sels = length ticks" by auto
  with uc ds ex show ?case unfolding tk by auto
qed

lemma known_distinct: "map fst sc = known_directions \<Longrightarrow> distinct (map fst sc)"
  by (simp add: known_directions_def)

lemma override_selects_best_other:
  assumes keys: "map fst (smooth_counts c) = known_directions"
    and lg: "last_green c = Some l"
    and am: "argmax_candidate (smooth_counts c) = Inr l"
    and over: "consecutive_count c + 1 > MAX_CONSECUTIVE c"
  shows "\<exists>c2 d s. select_phase c = Inr c2 \<and> current_green c2 = Some d \<and> d \<noteq> l
           \<and> consecutive_count c2 = 1
           \<and> map_of (smooth_counts c) d = Some s
           \<and> (\<forall>d' s'. d' \<noteq> l \<longrightarrow> map_of (smooth_counts c) d' = Some s' \<longrightarrow> s' \<le> s)"
proof -
  let ?sd = "sorted_dirs (smooth_counts c)"
  from select_phase_total[OF known_nonempty[OF keys]] am obtain cc sel' s where
    cc: "cc = (if Some l = last_green c then consecutive_count c + 1 else 1)"
    and sel': "sel' = (if cc > MAX_CONSECUTIVE c then first_other ?sd (last_green c) l else l)"
    and s: "map_of (smooth_counts c) sel' = Some s"
    and sp: "select_phase c =
             Inr (c\<lparr>consecutive_count := (if cc > MAX_CONSECUTIVE c then 1 else cc),
                    current_green := Some sel',
                    last_green := Some sel',
                    current_duration := max (MIN_GREEN c) (min (py_int s * 2) (MAX_GREEN c))\<rparr>)"
    by auto
  from cc lg over have big: "cc > MAX_CONSECUTIVE c" by simp
  with sel' lg have sel'_eq: "sel' = first_other ?sd (Some l) l" by simp
  from known_other[OF keys, of "Some l"] obtain d0 v0 where
    "(d0, v0) \<in> set ?sd" "Some d0 \<noteq> Some l" by (auto simp: sorted_dirs_set)
  from first_other_differs[OF this, of l] sel'_eq have ne: "sel' \<noteq> l" by simp
  have best: "\<forall>d' s'. d' \<noteq> l \<longrightarrow> map_of (smooth_counts c) d' = Some s' \<longrightarrow> s' \<le> s"
  proof (intro allI impI)
    fix d' s'
    assume d': "d' \<noteq> l" and m: "map_of (smooth_counts c) d' = Some s'"
    from m have "(d', s') \<in> set ?sd" by (simp add: sorted_dirs_set map_of_SomeD)
    from first_other_sorted[OF sorted_dirs_sorted this, of "Some l" l] d' sel'_eq
    obtain v where v: "(sel', v) \<in> set ?sd" "s' \<le> v" by auto
    from v(1) have "map_of (smooth_counts c) sel' = Some v"
      using known_distinct[OF keys] by (simp add: sorted_dirs_set)
    with s v(2) show "s' \<le> s" by simp
  qed
  from sp big ne s best show ?thesis by auto
qed

text \<open>
  C6. Let the configured limit \<open>max_consecutive\<close> be at least 1 and let the control loop run
  from the initial state over any sequence of ticks. Then every block of \<open>k\<close> equal
  consecutive selections has \<open>k \<le> max_consecutive\<close>. The run raises nothing and selects
  once per tick when the raw counts name known directions only and the clock readings are
  not negative. In any state over the four directions, when the candidate is \<open>last_green\<close>
  and its count would exceed the limit, the selection takes a direction other than
  \<open>last_green\<close> whose demand is largest among the others, and sets the count to 1.
\<close>

theorem fairness_bound:
  assumes "1 \<le> max_consecutive"
  shows "(\<forall>ticks c' sels pre d k suf.
            run (init_state min_green max_green smoothing_alpha max_consecutive) ticks = Inr (c', sels)
            \<longrightarrow> sels = pre @ replicate k d @ suf \<longrightarrow> int k \<le> max_consecutive)
       \<and> (\<forall>ticks. (\<forall>tk \<in> set ticks. fst ` set (fst tk) \<subseteq> set known_directions \<and> 0 \<le> fst (snd tk))
            \<longrightarrow> (\<exists>c' sels. run (init_state min_green max_green smoothing_alpha max_consecutive) ticks
                              = Inr (c', sels) \<and> length sels = length ticks))
       \<and> (\<forall>c l. map fst (smooth_counts c) = known_directions \<longrightarrow> last_green c = Some l
            \<longrightarrow> argmax_candidate (smooth_counts c) = Inr l
            \<longrightarrow> consecutive_count c + 1 > MAX_CONSECUTIVE c
            \<longrightarrow> (\<exists>c2 d s. select_phase c = Inr c2 \<and> current_green c2 = Some d \<and> d \<noteq> l
                   \<and> consecutive_count c2 = 1
                   \<and> map_of (smooth_counts c) d = Some s
                   \<and> (\<forall>d' s'. d' \<noteq> l \<longrightarrow> map_of (smooth_counts c) d' = Some s' \<longrightarrow> s' \<le> s)))"
proof -
  let ?c0 = "init_state min_green max_green smoothing_alpha max_consecutive"
  have fair: "fair_state ?c0" by (rule init_state_fair[OF assms])
  have mc: "MAX_CONSECUTIVE ?c0 = max_consecutive" by (simp add: init_state_def)
  have ge: "green_end_time ?c0 = 0" by (simp add: init_state_def)
  have one: "\<forall>ticks c' sels pre d k suf. run ?c0 ticks = Inr (c', sels)
            \<longrightarrow> sels = pre @ replicate k d @ suf \<longrightarrow> int k \<le> max_consecutive"
    using run_fair[OF fair] mc by metis
  have two: "\<forall>ticks. (\<forall>tk \<in> set ticks. fst ` set (fst tk) \<subseteq> set known_directions \<and> 0 \<le> fst (snd tk))
            \<longrightarrow> (\<exists>c' sels. run ?c0 ticks = Inr (c', sels) \<and> length sels = length ticks)"
    using run_total[OF fair ge] by blast
  from one two override_selects_best_other show ?thesis by blast
qed

theorem fairness_bound_witness:
  "(1::int) \<le> 2
   \<and> run (init_state 15 90 (7/10) 2) scenario_ticks =
       Inr (\<lparr>MIN_GREEN = 15, MAX_GREEN = 90, ALPHA = 7 / 10, MAX_CONSECUTIVE = 2,
              current_green = Some ''NORTH'', green_end_time = 0,
              last_green = Some ''NORTH'', consecutive_count = 1,
              current_duration = 18,
              smooth_counts =
                [(''NORTH'', 22797 / 2500), (''EAST'', 22797 / 10000),
                 (''SOUTH'', 7599 / 10000), (''WEST'', 7599 / 5000)]\<rparr>,
            [Some ''NORTH'', Some ''NORTH'', Some ''EAST'', Some ''NORTH''])
   \<and> \<not> (\<exists>pre d suf. [Some ''NORTH'', Some ''NORTH'', Some ''EAST'', Some ''NORTH'']
                        = pre @ replicate 3 d @ suf)"
proof -
  have le: "(1::int) \<le> 2" by simp
  have r: "run (init_state 15 90 (7/10) 2) scenario_ticks =
       Inr (\<lparr>MIN_GREEN = 15, MAX_GREEN = 90, ALPHA = 7 / 10, MAX_CONSECUTIVE = 2,
              current_green = Some ''NORTH'', green_end_time = 0,
              last_green = Some ''NORTH'', consecutive_count = 1,
              current_duration = 18,
              smooth_counts =
                [(''NORTH'', 22797 / 2500), (''EAST'', 22797 / 10000),
                 (''SOUTH'', 7599 / 10000), (''WEST'', 7599 / 5000)]\<rparr>,
            [Some ''NORTH'', Some ''NORTH'', Some ''EAST'', Some ''NORTH''])"
    by code_simp
  have "\<forall>pre d k suf. [Some ''NORTH'', Some ''NORTH'', Some ''EAST'', Some ''NORTH'']
          = pre @ replicate k d @ suf \<longrightarrow> int k \<le> 2"
    using fairness_bound [OF le, of 15 90 "7/10"] r by blast
  then have "\<not> (\<exists>pre d suf. [Some ''NORTH'', Some ''NORTH'', Some ''EAST'', Some ''NORTH'']
                        = pre @ replicate 3 d @ suf)"
    by fastforce
  with le r show ?thesis by blast
qed

end
